theory Spec2Isabelle
  imports Main "HOL-Library.Word" "HOL-Library.Sublist"
begin

section \<open>MicrophoneStream: the shared buffer and the teardown\<close>

text \<open>
  An audio chunk is a Python \<open>bytes\<close> object. The queue \<open>self._buff\<close> holds chunks
  and the end-of-stream marker, which the source writes as Python's \<open>None\<close>: an item is
  a \<open>bytes option\<close>, and \<open>None\<close> is the marker.
\<close>

type_synonym bytes = "8 word list"

type_synonym item = "bytes option"

text \<open>
  Every statement of the class that other threads can observe is an effect. The calls on
  the PyAudio objects (\<open>stop_stream\<close>, \<open>close\<close>, \<open>terminate\<close>, \<open>open\<close>) are external:
  they are recorded in the log and change nothing else in the model.
\<close>

datatype effect = OpenStream | StopStream | CloseStream | SetClosed bool | Put item | Terminate

record mic =
  buff :: "item list"
  closed :: bool
  log :: "effect list"

definition open_stream :: "mic \<Rightarrow> mic" where
  "open_stream m = m\<lparr>log := log m @ [OpenStream]\<rparr>"

definition stop_stream :: "mic \<Rightarrow> mic" where
  "stop_stream m = m\<lparr>log := log m @ [StopStream]\<rparr>"

definition close_stream :: "mic \<Rightarrow> mic" where
  "close_stream m = m\<lparr>log := log m @ [CloseStream]\<rparr>"

definition set_closed :: "bool \<Rightarrow> mic \<Rightarrow> mic" where
  "set_closed b m = m\<lparr>closed := b, log := log m @ [SetClosed b]\<rparr>"

definition put :: "item \<Rightarrow> mic \<Rightarrow> mic" where
  "put x m = m\<lparr>buff := buff m @ [x], log := log m @ [Put x]\<rparr>"

definition terminate :: "mic \<Rightarrow> mic" where
  "terminate m = m\<lparr>log := log m @ [Terminate]\<rparr>"

text \<open>\<open>__init__\<close>: an empty queue, \<open>closed = True\<close>.\<close>

definition mic_init :: mic where
  "mic_init = \<lparr>buff = [], closed = True, log = []\<rparr>"

text \<open>\<open>__enter__\<close>: open the device stream, then \<open>closed = False\<close>.\<close>

definition mic_enter :: "mic \<Rightarrow> mic" where
  "mic_enter m = set_closed False (open_stream m)"

text \<open>
  \<open>__exit__\<close>, statement by statement: \<open>stop_stream()\<close>, \<open>close()\<close>,
  \<open>closed = True\<close>, \<open>_buff.put(None)\<close>, \<open>terminate()\<close>.
\<close>

definition mic_exit :: "mic \<Rightarrow> mic" where
  "mic_exit m = terminate (put None (set_closed True (close_stream (stop_stream m))))"

text \<open>\<open>_fill_buffer\<close>, the capture callback: \<open>_buff.put(in_data)\<close>.\<close>

definition fill_buffer :: "bytes \<Rightarrow> mic \<Rightarrow> mic" where
  "fill_buffer in_data m = put (Some in_data) m"

section \<open>The generator and the threads around it\<close>

text \<open>
  The generator runs while the capture callback and the teardown run on other threads.
  It looks at the shared state at three places: the loop guard \<open>self.closed\<close>, the
  blocking \<open>get()\<close> and the non-blocking \<open>get(block=False)\<close>. A schedule lists, for
  each of these observations in turn, the effects the other threads perform since the
  previous one. When the schedule is used up the other threads do nothing more.
\<close>

type_synonym sched = "effect list list"

fun apply_effect :: "effect \<Rightarrow> mic \<Rightarrow> mic" where
  "apply_effect OpenStream m = open_stream m"
| "apply_effect StopStream m = stop_stream m"
| "apply_effect CloseStream m = close_stream m"
| "apply_effect (SetClosed b) m = set_closed b m"
| "apply_effect (Put x) m = put x m"
| "apply_effect Terminate m = terminate m"

fun advance :: "sched \<Rightarrow> mic \<Rightarrow> sched \<times> mic" where
  "advance [] m = ([], m)"
| "advance (es # s) m = (s, fold apply_effect es m)"

text \<open>The loop guard reads \<open>self.closed\<close>.\<close>

definition read_closed :: "sched \<Rightarrow> mic \<Rightarrow> bool \<times> sched \<times> mic" where
  "read_closed s m = (case advance s m of (s', m') \<Rightarrow> (closed m', s', m'))"

text \<open>
  \<open>get(block=False)\<close>: the oldest item, or \<open>queue.Empty\<close> (here \<open>None\<close>) when the
  queue is empty.
\<close>

definition get_nowait :: "sched \<Rightarrow> mic \<Rightarrow> item option \<times> sched \<times> mic" where
  "get_nowait s m =
     (case advance s m of (s', m') \<Rightarrow>
        (case buff m' of
           [] \<Rightarrow> (None, s', m')
         | x # q \<Rightarrow> (Some x, s', m'\<lparr>buff := q\<rparr>)))"

text \<open>
  \<open>get()\<close> waits until the queue holds an item. With an empty queue and nothing left
  in the schedule it waits for ever: the result is \<open>None\<close>.
\<close>

fun wait :: "sched \<Rightarrow> mic \<Rightarrow> (item \<times> sched \<times> mic) option" where
  "wait [] m =
     (case buff m of [] \<Rightarrow> None | x # q \<Rightarrow> Some (x, [], m\<lparr>buff := q\<rparr>))"
| "wait (es # s) m =
     (case buff m of
        [] \<Rightarrow> wait s (fold apply_effect es m)
      | x # q \<Rightarrow> Some (x, es # s, m\<lparr>buff := q\<rparr>))"

definition get_block :: "sched \<Rightarrow> mic \<Rightarrow> (item \<times> sched \<times> mic) option" where
  "get_block s m = (case advance s m of (s', m') \<Rightarrow> wait s' m')"

text \<open>
  What the generator does is recorded as a trace: each read of the guard, each queue read
  with what it returned, and each \<open>yield\<close> with the block it hands out.
\<close>

datatype action = ReadClosed bool | Get item | GetNoWait "item option" | Yield bytes

datatype outcome = Returned | Blocked

text \<open>The items still to be dequeued: those in the queue, then those the schedule puts.\<close>

fun puts_of :: "effect list \<Rightarrow> item list" where
  "puts_of [] = []"
| "puts_of (Put x # es) = x # puts_of es"
| "puts_of (e # es) = puts_of es"

definition enqueued :: "sched \<Rightarrow> mic \<Rightarrow> item list" where
  "enqueued s m = buff m @ puts_of (concat s)"

lemma puts_of_append: "puts_of (es @ fs) = puts_of es @ puts_of fs"
  by (induction es rule: puts_of.induct) simp_all

lemma buff_fold_apply: "buff (fold apply_effect es m) = buff m @ puts_of es"
proof (induction es arbitrary: m)
  case Nil
  show ?case by simp
next
  case (Cons e es)
  show ?case
    by (cases e)
      (simp_all add: Cons.IH open_stream_def stop_stream_def close_stream_def
        set_closed_def put_def terminate_def)
qed

lemma enqueued_advance: "advance s m = (s', m') \<Longrightarrow> enqueued s' m' = enqueued s m"
  by (cases s) (auto simp: enqueued_def buff_fold_apply puts_of_append)

text \<open>
  Each queue read that returns an item takes it from the items still to be dequeued, so
  their number bounds the reads: both loops of the generator terminate.
\<close>

definition load :: "sched \<Rightarrow> mic \<Rightarrow> nat" where
  "load s m = length (enqueued s m)"

lemma get_nowait_Some:
  assumes "get_nowait s m = (Some x, s', m')"
  shows "enqueued s m = x # enqueued s' m'"
proof -
  obtain s1 m1 where a: "advance s m = (s1, m1)" by (cases "advance s m")
  from assms a obtain q where "buff m1 = x # q" "s' = s1" "m' = m1\<lparr>buff := q\<rparr>"
    by (auto simp: get_nowait_def split: list.splits)
  then have "enqueued s1 m1 = x # enqueued s' m'"
    by (simp add: enqueued_def)
  with enqueued_advance[OF a] show ?thesis by simp
qed

lemma get_nowait_None:
  assumes "get_nowait s m = (None, s', m')"
  shows "enqueued s' m' = enqueued s m \<and> buff m' = []"
proof -
  obtain s1 m1 where a: "advance s m = (s1, m1)" by (cases "advance s m")
  from assms a have "buff m1 = []" "s' = s1" "m' = m1"
    by (auto simp: get_nowait_def split: list.splits)
  with enqueued_advance[OF a] show ?thesis by simp
qed

lemma wait_Some:
  "wait s m = Some (x, s', m') \<Longrightarrow> enqueued s m = x # enqueued s' m'"
proof (induction s m rule: wait.induct)
  case (1 m)
  then show ?case by (auto simp: enqueued_def split: list.splits)
next
  case (2 es s m)
  show ?case
  proof (cases "buff m")
    case Nil
    with 2 have "enqueued s (fold apply_effect es m) = x # enqueued s' m'" by simp
    with Nil show ?thesis by (simp add: enqueued_def buff_fold_apply puts_of_append)
  next
    case (Cons y q)
    with "2.prems" show ?thesis by (auto simp: enqueued_def)
  qed
qed

lemma get_block_Some:
  assumes "get_block s m = Some (x, s', m')"
  shows "enqueued s m = x # enqueued s' m'"
proof -
  obtain s1 m1 where a: "advance s m = (s1, m1)" by (cases "advance s m")
  with assms have "wait s1 m1 = Some (x, s', m')" by (simp add: get_block_def)
  from wait_Some[OF this] enqueued_advance[OF a] show ?thesis by simp
qed

lemma read_closed_enqueued:
  "read_closed s m = (b, s', m') \<Longrightarrow> enqueued s' m' = enqueued s m"
  by (cases "advance s m") (auto simp: read_closed_def dest: enqueued_advance)

text \<open>
  The inner \<open>while True\<close> loop, entered with \<open>data = [chunk]\<close>. \<open>queue.Empty\<close>
  breaks out with the batch; the marker makes the generator \<open>return\<close>, and the batch
  is dropped with it (the result \<open>None\<close>).
\<close>

function drain :: "sched \<Rightarrow> mic \<Rightarrow> bytes list \<Rightarrow> action list \<times> (bytes list \<times> sched \<times> mic) option" where
  "drain s m data =
     (case get_nowait s m of
        (None, s', m') \<Rightarrow> ([GetNoWait None], Some (data, s', m'))
      | (Some None, s', m') \<Rightarrow> ([GetNoWait (Some None)], None)
      | (Some (Some chunk), s', m') \<Rightarrow>
          (case drain s' m' (data @ [chunk]) of
             (tr, r) \<Rightarrow> (GetNoWait (Some (Some chunk)) # tr, r)))"
  by pat_completeness auto

termination
  by (relation "measure (\<lambda>(s, m, data). load s m)")
    (auto simp: load_def dest!: get_nowait_Some[OF sym])

declare drain.simps [simp del]

lemma drain_load:
  "drain s m data = (tr, Some (d, s', m')) \<Longrightarrow> load s' m' \<le> load s m"
proof (induction s m data arbitrary: tr rule: drain.induct)
  case (1 s m data)
  obtain r s1 m1 where g: "get_nowait s m = (r, s1, m1)" by (cases "get_nowait s m")
  show ?case
  proof (cases r)
    case None
    with g "1.prems" have "s' = s1" "m' = m1" by (simp_all add: drain.simps[of s m])
    with g None get_nowait_None[of s m s1 m1] show ?thesis by (simp add: load_def)
  next
    case (Some x)
    show ?thesis
    proof (cases x)
      case None
      with Some g "1.prems" show ?thesis by (simp add: drain.simps[of s m])
    next
      case (Some chunk)
      with \<open>r = Some x\<close> g have g': "get_nowait s m = (Some (Some chunk), s1, m1)" by simp
      with "1.prems" obtain tr' where "drain s1 m1 (data @ [chunk]) = (tr', Some (d, s', m'))"
        by (auto simp: drain.simps[of s m] split: prod.splits)
      with "1.IH"[OF g'[symmetric] refl refl refl] have "load s' m' \<le> load s1 m1"
        by simp
      with get_nowait_Some[OF g'] show ?thesis by (simp add: load_def)
    qed
  qed
qed

text \<open>
  The outer \<open>while not self.closed\<close> loop. The generator is run to its end, the
  consumer asking for the next block after every \<open>yield\<close>.
\<close>

function generator :: "sched \<Rightarrow> mic \<Rightarrow> action list \<times> outcome" where
  "generator s m =
     (case read_closed s m of
        (True, s1, m1) \<Rightarrow> ([ReadClosed True], Returned)
      | (False, s1, m1) \<Rightarrow>
          (case get_block s1 m1 of
             None \<Rightarrow> ([ReadClosed False], Blocked)
           | Some (None, s2, m2) \<Rightarrow> ([ReadClosed False, Get None], Returned)
           | Some (Some chunk, s2, m2) \<Rightarrow>
               (case drain s2 m2 [chunk] of
                  (tr, None) \<Rightarrow> (ReadClosed False # Get (Some chunk) # tr, Returned)
                | (tr, Some (data, s3, m3)) \<Rightarrow>
                    (case generator s3 m3 of
                       (tr', out) \<Rightarrow>
                         (ReadClosed False # Get (Some chunk) # tr @ Yield (concat data) # tr',
                          out)))))"
  by pat_completeness auto

termination
  by (relation "measure (\<lambda>(s, m). load s m)")
    (auto dest!: read_closed_enqueued[OF sym] get_block_Some drain_load[OF sym] simp: load_def)

declare generator.simps [simp del]

subsection \<open>Reading a trace\<close>

text \<open>The chunks that the queue reads of a trace returned, in order.\<close>

fun dequeued :: "action list \<Rightarrow> bytes list" where
  "dequeued [] = []"
| "dequeued (Get (Some c) # tr) = c # dequeued tr"
| "dequeued (GetNoWait (Some (Some c)) # tr) = c # dequeued tr"
| "dequeued (a # tr) = dequeued tr"

text \<open>The blocks a trace yields, in order.\<close>

fun yields :: "action list \<Rightarrow> bytes list" where
  "yields [] = []"
| "yields (Yield b # tr) = b # yields tr"
| "yields (a # tr) = yields tr"

text \<open>The non-blocking reads that return the chunks \<open>ds\<close>, one after the other.\<close>

definition drained :: "bytes list \<Rightarrow> action list" where
  "drained ds = map (\<lambda>c. GetNoWait (Some (Some c))) ds"

text \<open>A queue read that returns the end-of-stream marker.\<close>

definition marker_read :: "action \<Rightarrow> bool" where
  "marker_read a = (a = Get None \<or> a = GetNoWait (Some None))"

text \<open>Whether an action is a \<open>yield\<close>.\<close>

fun is_yield :: "action \<Rightarrow> bool" where
  "is_yield (Yield b) = True"
| "is_yield a = False"

text \<open>
  The chunks dequeued since the last \<open>yield\<close> of a trace: the batch \<open>data\<close> that the
  generator holds when the trace ends.
\<close>

fun unyielded :: "bytes list \<Rightarrow> action list \<Rightarrow> bytes list" where
  "unyielded acc [] = acc"
| "unyielded acc (Yield b # tr) = unyielded [] tr"
| "unyielded acc (Get (Some c) # tr) = unyielded (acc @ [c]) tr"
| "unyielded acc (GetNoWait (Some (Some c)) # tr) = unyielded (acc @ [c]) tr"
| "unyielded acc (a # tr) = unyielded acc tr"

text \<open>The closed flag is set, or the schedule still sets it.\<close>

definition flag_set :: "sched \<Rightarrow> mic \<Rightarrow> bool" where
  "flag_set s m = (closed m \<or> SetClosed True \<in> set (concat s))"

subsection \<open>Two sessions\<close>

text \<open>
  A session used for the concrete checks below. The stream is entered; two chunks arrive
  and are handed out as one block; a third chunk arrives, and the teardown runs between the
  blocking read that returns it and the non-blocking read that follows.
\<close>

definition demo_sched :: sched where
  "demo_sched =
     [[], [Put (Some [1, 2])], [Put (Some [3])], [],
      [], [Put (Some [4])], [StopStream, CloseStream, SetClosed True, Put None, Terminate]]"

definition demo_trace :: "action list" where
  "demo_trace =
     [ReadClosed False, Get (Some [1, 2]), GetNoWait (Some (Some [3])), GetNoWait None,
      Yield [1, 2, 3],
      ReadClosed False, Get (Some [4]), GetNoWait (Some None)]"

text \<open>
  A second session: one chunk arrives and is handed out, and the teardown runs while the
  generator waits in the blocking read.
\<close>

definition calm_sched :: sched where
  "calm_sched =
     [[], [Put (Some [1, 2])], [],
      [], [StopStream, CloseStream, SetClosed True, Put None, Terminate]]"

definition calm_trace :: "action list" where
  "calm_trace =
     [ReadClosed False, Get (Some [1, 2]), GetNoWait None, Yield [1, 2],
      ReadClosed False, Get None]"

text \<open>
  A third session: one chunk is handed out; while the consumer holds the generator at the
  \<open>yield\<close>, two more chunks arrive and the teardown runs, so the next thing the generator
  sees is the loop guard with the flag set.
\<close>

definition guard_sched :: sched where
  "guard_sched =
     [[], [Put (Some [1])], [],
      [Put (Some [2]), Put (Some [3]),
       StopStream, CloseStream, SetClosed True, Put None, Terminate]]"

definition guard_trace :: "action list" where
  "guard_trace =
     [ReadClosed False, Get (Some [1]), GetNoWait None, Yield [1], ReadClosed True]"

section \<open>listen_print_loop\<close>

text \<open>
  A Python 3 \<open>str\<close> is a sequence of Unicode code points, and \<open>len\<close> counts code
  points: a transcript is a list of code points. (The source file holds non-ASCII text
  with no coding line, so it is Python 3 source.)
\<close>

type_synonym pystr = "nat list"

definition ascii :: "string \<Rightarrow> pystr" where
  "ascii cs = map of_char cs"

definition space :: nat where
  "space = 32"

definition newline :: nat where
  "newline = 10"

definition carriage_return :: nat where
  "carriage_return = 13"

text \<open>The fields of a streaming response that the loop reads.\<close>

record alternative =
  transcript :: pystr

record result =
  alternatives :: "alternative list"
  is_final :: bool

record response =
  results :: "result list"

text \<open>
  What the loop does to standard output: \<open>sys.stdout.write(s)\<close>,
  \<open>sys.stdout.flush()\<close>, and \<open>print(s)\<close>, which writes \<open>s\<close> and a newline.
\<close>

datatype out = Write pystr | Flush

definition py_print :: "pystr \<Rightarrow> out list" where
  "py_print s = [Write (s @ [newline])]"

text \<open>\<open>' ' * k\<close>: the empty string when \<open>k\<close> is negative.\<close>

definition spaces :: "int \<Rightarrow> pystr" where
  "spaces k = replicate (nat k) space"

text \<open>
  The pattern \<open>\b(\<dots>|\<dots>)\b\<close> with \<open>re.I\<close> consults Python's Unicode tables,
  which are not part of the program: which code points are word characters (\<open>\w\<close>),
  and the lower-case form that case-insensitive matching compares. They are a parameter.
\<close>

record unicode_db =
  is_word :: "nat \<Rightarrow> bool"
  to_lower :: "nat \<Rightarrow> nat"

text \<open>The two alternatives of the pattern, U+7D42 U+308F U+308A and U+7D42 U+4E86.\<close>

definition owari :: pystr where
  "owari = [0x7D42, 0x308F, 0x308A]"

definition shuuryou :: pystr where
  "shuuryou = [0x7D42, 0x4E86]"

definition exit_keywords :: "pystr list" where
  "exit_keywords = [owari, shuuryou]"

text \<open>
  \<open>\b\<close> at position \<open>i\<close> of \<open>s\<close>: exactly one of the code points before and after
  the position is a word character, the ends of the string counting as non-word.
\<close>

definition at_boundary :: "unicode_db \<Rightarrow> pystr \<Rightarrow> nat \<Rightarrow> bool" where
  "at_boundary u s i =
     ((0 < i \<and> is_word u (s ! (i - 1))) \<noteq> (i < length s \<and> is_word u (s ! i)))"

definition literal_at :: "unicode_db \<Rightarrow> pystr \<Rightarrow> pystr \<Rightarrow> nat \<Rightarrow> bool" where
  "literal_at u kw s i =
     (i + length kw \<le> length s \<and>
      map (to_lower u) (take (length kw) (drop i s)) = map (to_lower u) kw)"

definition match_at :: "unicode_db \<Rightarrow> pystr \<Rightarrow> nat \<Rightarrow> bool" where
  "match_at u s i =
     (at_boundary u s i \<and>
      list_ex (\<lambda>kw. literal_at u kw s i \<and> at_boundary u s (i + length kw)) exit_keywords)"

text \<open>\<open>re.search\<close> tries every start position; the loop only tests whether it matched.\<close>

definition re_search :: "unicode_db \<Rightarrow> pystr \<Rightarrow> bool" where
  "re_search u s = list_ex (match_at u s) [0..<Suc (length s)]"

text \<open>
  One pass through the body of the \<open>for\<close> loop, from the counter \<open>num_chars_printed\<close>
  and the response: what is written, the new counter, and whether the loop goes on.
\<close>

datatype ctrl = Continue | Break

definition step :: "unicode_db \<Rightarrow> int \<Rightarrow> response \<Rightarrow> out list \<times> int \<times> ctrl" where
  "step u num_chars_printed response =
     (case results response of
        [] \<Rightarrow> ([], num_chars_printed, Continue)
      | result # _ \<Rightarrow>
          (case alternatives result of
             [] \<Rightarrow> ([], num_chars_printed, Continue)
           | alt # _ \<Rightarrow>
               (let overwrite_chars =
                      spaces (num_chars_printed - int (length (transcript alt)))
                in if \<not> is_final result
                   then ([Write (transcript alt @ overwrite_chars @ [carriage_return]), Flush],
                         int (length (transcript alt)), Continue)
                   else if re_search u (transcript alt)
                   then (py_print (transcript alt @ overwrite_chars) @
                           py_print (ascii ''Exiting..''),
                         num_chars_printed, Break)
                   else (py_print (transcript alt @ overwrite_chars), 0, Continue))))"

text \<open>
  The \<open>for\<close> loop over the responses received. It ends when the responses are used up
  or at the \<open>break\<close>; the result keeps the responses the loop never looked at.
\<close>

record run =
  written :: "out list"
  num_chars_printed :: int
  exited :: bool
  unread :: "response list"

fun loop :: "unicode_db \<Rightarrow> int \<Rightarrow> response list \<Rightarrow> run" where
  "loop u n [] = \<lparr>written = [], num_chars_printed = n, exited = False, unread = []\<rparr>"
| "loop u n (r # rs) =
     (case step u n r of
        (ws, n', Break) \<Rightarrow> \<lparr>written = ws, num_chars_printed = n', exited = True, unread = rs\<rparr>
      | (ws, n', Continue) \<Rightarrow>
          (let rest = loop u n' rs in rest\<lparr>written := ws @ written rest\<rparr>))"

definition listen_print_loop :: "unicode_db \<Rightarrow> response list \<Rightarrow> run" where
  "listen_print_loop u responses = loop u 0 responses"

text \<open>The counter at the start of each pass that the loop makes.\<close>

fun starts :: "unicode_db \<Rightarrow> int \<Rightarrow> response list \<Rightarrow> int list" where
  "starts u n [] = []"
| "starts u n (r # rs) =
     n # (case step u n r of
            (ws, n', Break) \<Rightarrow> []
          | (ws, n', Continue) \<Rightarrow> starts u n' rs)"

subsection \<open>Reading the responses\<close>

text \<open>The transcript that the interim branch writes for a response, if it takes that branch.\<close>

fun interim_of :: "response \<Rightarrow> pystr option" where
  "interim_of r =
     (case results r of
        [] \<Rightarrow> None
      | res # _ \<Rightarrow>
          (case alternatives res of
             [] \<Rightarrow> None
           | alt # _ \<Rightarrow> if is_final res then None else Some (transcript alt)))"

text \<open>The transcripts written by the interim branch over a list of responses, in order.\<close>

fun interims :: "response list \<Rightarrow> pystr list" where
  "interims [] = []"
| "interims (r # rs) =
     (case interim_of r of None \<Rightarrow> interims rs | Some t \<Rightarrow> t # interims rs)"

text \<open>A response the loop skips: no result, or a first result with no alternative.\<close>

definition skipped :: "response \<Rightarrow> bool" where
  "skipped r = (case results r of [] \<Rightarrow> True | res # _ \<Rightarrow> alternatives res = [])"

text \<open>
  The counter is not negative, and it is 0 or the length of the last of the interim
  transcripts \<open>ps\<close> written so far.
\<close>

definition counter_ok :: "int \<Rightarrow> pystr list \<Rightarrow> bool" where
  "counter_ok n ps = (0 \<le> n \<and> (n = 0 \<or> (ps \<noteq> [] \<and> n = int (length (last ps)))))"

text \<open>
  A transcript contains a keyword when one of the two keywords occurs in it at some
  position, compared as the pattern compares code points, whatever stands around it.
\<close>

definition contains_keyword :: "unicode_db \<Rightarrow> pystr \<Rightarrow> bool" where
  "contains_keyword u t =
     list_ex (\<lambda>i. list_ex (\<lambda>kw. literal_at u kw t i) exit_keywords) [0..<Suc (length t)]"

subsection \<open>Data for the concrete checks\<close>

text \<open>
  A fragment of Python's tables, enough for the concrete checks: the ASCII letters, the
  digits and the underscore, the hiragana and the CJK unified ideographs are word
  characters, and lower-casing moves the ASCII capitals only.
\<close>

definition demo_db :: unicode_db where
  "demo_db =
     \<lparr>is_word = (\<lambda>c. (48 \<le> c \<and> c \<le> 57) \<or> (65 \<le> c \<and> c \<le> 90) \<or> c = 95 \<or>
                     (97 \<le> c \<and> c \<le> 122) \<or> (0x3041 \<le> c \<and> c \<le> 0x3096) \<or>
                     (0x4E00 \<le> c \<and> c \<le> 0x9FFF)),
      to_lower = (\<lambda>c. if 65 \<le> c \<and> c \<le> 90 then c + 32 else c)\<rparr>"

text \<open>A response with one result and one alternative, interim or final.\<close>

definition interim :: "pystr \<Rightarrow> response" where
  "interim t = \<lparr>results = [\<lparr>alternatives = [\<lparr>transcript = t\<rparr>], is_final = False\<rparr>]\<rparr>"

definition final :: "pystr \<Rightarrow> response" where
  "final t = \<lparr>results = [\<lparr>alternatives = [\<lparr>transcript = t\<rparr>], is_final = True\<rparr>]\<rparr>"

text \<open>The greeting U+3053 U+3093 U+306B U+3061 U+306F.\<close>

definition konnichiwa :: pystr where
  "konnichiwa = [0x3053, 0x3093, 0x306B, 0x3061, 0x306F]"

definition demo_responses :: "response list" where
  "demo_responses =
     [interim (ascii ''hello''), \<lparr>results = []\<rparr>, final konnichiwa, interim (ascii ''hi'')]"

section \<open>Facts about the generator\<close>

lemma exit_effects:
  "fold apply_effect [StopStream, CloseStream, SetClosed True, Put None, Terminate] m = mic_exit m"
  by (simp add: mic_exit_def)

lemma callback_effect: "apply_effect (Put (Some in_data)) m = fill_buffer in_data m"
  by (simp add: fill_buffer_def)

lemma drain_Some:
  "drain s m d = (tr, Some (data, s', m')) \<Longrightarrow>
   \<exists>ds. tr = drained ds @ [GetNoWait None] \<and> data = d @ ds \<and>
        enqueued s m = map Some ds @ enqueued s' m'"
proof (induction s m d arbitrary: tr rule: drain.induct)
  case (1 s m d)
  obtain r s1 m1 where g: "get_nowait s m = (r, s1, m1)" by (cases "get_nowait s m")
  show ?case
  proof (cases r)
    case None
    with g "1.prems" have "s' = s1" "m' = m1" "data = d" "tr = [GetNoWait None]"
      by (simp_all add: drain.simps[of s m])
    with g None get_nowait_None[of s m s1 m1] show ?thesis
      by (intro exI[of _ "[]"]) (simp add: drained_def)
  next
    case (Some x)
    show ?thesis
    proof (cases x)
      case None
      with Some g "1.prems" show ?thesis by (simp add: drain.simps[of s m])
    next
      case (Some chunk)
      with \<open>r = Some x\<close> g have g': "get_nowait s m = (Some (Some chunk), s1, m1)" by simp
      with "1.prems" obtain tr' where
        d: "drain s1 m1 (d @ [chunk]) = (tr', Some (data, s', m'))"
        and tr: "tr = GetNoWait (Some (Some chunk)) # tr'"
        by (auto simp: drain.simps[of s m] split: prod.splits)
      from "1.IH"[OF g'[symmetric] refl refl refl d] obtain ds where
        "tr' = drained ds @ [GetNoWait None]" "data = (d @ [chunk]) @ ds"
        "enqueued s1 m1 = map Some ds @ enqueued s' m'" by blast
      with tr get_nowait_Some[OF g'] show ?thesis
        by (intro exI[of _ "chunk # ds"]) (simp add: drained_def)
    qed
  qed
qed

lemma drain_None:
  "drain s m d = (tr, None) \<Longrightarrow>
   \<exists>ds rest. tr = drained ds @ [GetNoWait (Some None)] \<and>
        enqueued s m = map Some ds @ None # rest"
proof (induction s m d arbitrary: tr rule: drain.induct)
  case (1 s m d)
  obtain r s1 m1 where g: "get_nowait s m = (r, s1, m1)" by (cases "get_nowait s m")
  show ?case
  proof (cases r)
    case None
    with g "1.prems" show ?thesis by (simp add: drain.simps[of s m])
  next
    case (Some x)
    show ?thesis
    proof (cases x)
      case None
      with Some g "1.prems" have "tr = [GetNoWait (Some None)]"
        by (simp add: drain.simps[of s m])
      moreover from None Some g have "enqueued s m = None # enqueued s1 m1"
        by (auto dest: get_nowait_Some)
      ultimately have "tr = drained [] @ [GetNoWait (Some None)] \<and>
          enqueued s m = map Some [] @ None # enqueued s1 m1"
        by (simp add: drained_def)
      then show ?thesis by blast
    next
      case (Some chunk)
      with \<open>r = Some x\<close> g have g': "get_nowait s m = (Some (Some chunk), s1, m1)" by simp
      with "1.prems" obtain tr' where
        d: "drain s1 m1 (d @ [chunk]) = (tr', None)"
        and tr: "tr = GetNoWait (Some (Some chunk)) # tr'"
        by (auto simp: drain.simps[of s m] split: prod.splits)
      from "1.IH"[OF g'[symmetric] refl refl refl d] obtain ds rest where
        "tr' = drained ds @ [GetNoWait (Some None)]"
        "enqueued s1 m1 = map Some ds @ None # rest" by blast
      with tr get_nowait_Some[OF g'] have "tr = drained (chunk # ds) @ [GetNoWait (Some None)] \<and>
          enqueued s m = map Some (chunk # ds) @ None # rest"
        by (simp add: drained_def)
      then show ?thesis by blast
    qed
  qed
qed

lemma wait_None: "wait s m = None \<Longrightarrow> enqueued s m = []"
proof (induction s m rule: wait.induct)
  case (1 m)
  then show ?case by (simp add: enqueued_def split: list.splits)
next
  case (2 es s m)
  then show ?case
    by (auto simp: enqueued_def buff_fold_apply puts_of_append split: list.splits)
qed

lemma get_block_None:
  assumes "get_block s m = None"
  shows "enqueued s m = []"
proof -
  obtain s1 m1 where a: "advance s m = (s1, m1)" by (cases "advance s m")
  with assms have "wait s1 m1 = None" by (simp add: get_block_def)
  from wait_None[OF this] enqueued_advance[OF a] show ?thesis by simp
qed

lemma generator_cases:
  assumes "generator s m = (tr, out)"
  shows "(tr = [ReadClosed True] \<and> out = Returned) \<or>
    (tr = [ReadClosed False] \<and> out = Blocked \<and> enqueued s m = []) \<or>
    (tr = [ReadClosed False, Get None] \<and> out = Returned \<and> (\<exists>rest. enqueued s m = None # rest)) \<or>
    (\<exists>c ds rest. tr = ReadClosed False # Get (Some c) # drained ds @ [GetNoWait (Some None)] \<and>
       out = Returned \<and> enqueued s m = Some c # map Some ds @ None # rest) \<or>
    (\<exists>c ds s' m' tr'. tr = ReadClosed False # Get (Some c) # drained ds @
          [GetNoWait None, Yield (concat (c # ds))] @ tr' \<and>
       generator s' m' = (tr', out) \<and> enqueued s m = Some c # map Some ds @ enqueued s' m')"
proof -
  obtain b s1 m1 where rc: "read_closed s m = (b, s1, m1)" by (cases "read_closed s m")
  note e1 = read_closed_enqueued[OF rc]
  show ?thesis
  proof (cases b)
    case True
    with rc assms show ?thesis by (simp add: generator.simps[of s m])
  next
    case False
    note nb = this
    show ?thesis
    proof (cases "get_block s1 m1")
      case None
      with rc nb assms e1 get_block_None[OF None] show ?thesis
        by (simp add: generator.simps[of s m])
    next
      case (Some p)
      obtain x s2 m2 where p: "p = (x, s2, m2)" by (cases p)
      note e2 = get_block_Some[OF Some[unfolded p]]
      show ?thesis
      proof (cases x)
        case None
        with e1 e2 have "enqueued s m = None # enqueued s2 m2" by simp
        moreover from rc nb assms Some p None
        have "tr = [ReadClosed False, Get None]" "out = Returned"
          by (simp_all add: generator.simps[of s m])
        ultimately show ?thesis by blast
      next
        case (Some c)
        note xc = this
        obtain dtr r where dr: "drain s2 m2 [c] = (dtr, r)" by (cases "drain s2 m2 [c]")
        show ?thesis
        proof (cases r)
          case None
          from drain_None[OF dr[unfolded None]] obtain ds rest where
            "dtr = drained ds @ [GetNoWait (Some None)]"
            "enqueued s2 m2 = map Some ds @ None # rest" by blast
          moreover from rc nb assms \<open>get_block s1 m1 = Some p\<close> p xc dr None
          have "tr = ReadClosed False # Get (Some c) # dtr" "out = Returned"
            by (simp_all add: generator.simps[of s m])
          moreover from e1 e2 xc have "enqueued s m = Some c # enqueued s2 m2" by simp
          ultimately have
            "tr = ReadClosed False # Get (Some c) # drained ds @ [GetNoWait (Some None)] \<and>
             out = Returned \<and> enqueued s m = Some c # map Some ds @ None # rest"
            by simp
          then show ?thesis by blast
        next
          case (Some q)
          obtain data s3 m3 where q: "q = (data, s3, m3)" by (cases q)
          from drain_Some[OF dr[unfolded Some q]] obtain ds where ds:
            "dtr = drained ds @ [GetNoWait None]" "data = [c] @ ds"
            "enqueued s2 m2 = map Some ds @ enqueued s3 m3" by blast
          obtain tr' out' where g: "generator s3 m3 = (tr', out')" by (cases "generator s3 m3")
          from rc nb assms \<open>get_block s1 m1 = Some p\<close> p xc dr Some q g
          have "tr = ReadClosed False # Get (Some c) # dtr @ Yield (concat data) # tr'" "out = out'"
            by (simp_all add: generator.simps[of s m])
          moreover from e1 e2 xc have "enqueued s m = Some c # enqueued s2 m2" by simp
          ultimately have
            "tr = ReadClosed False # Get (Some c) # drained ds @
               [GetNoWait None, Yield (concat (c # ds))] @ tr' \<and>
             generator s3 m3 = (tr', out) \<and> enqueued s m = Some c # map Some ds @ enqueued s3 m3"
            using ds g by simp
          then show ?thesis by blast
        qed
      qed
    qed
  qed
qed

lemma generator_load:
  assumes "enqueued s m = Some c # map Some ds @ enqueued s' m'"
  shows "load s' m' < load s m"
  using assms by (simp add: load_def)

lemma generator_trace_cases [consumes 1, case_names closed blocked marker dropped yield]:
  assumes g: "generator s m = (tr, out)"
  obtains
    (closed) "tr = [ReadClosed True]" "out = Returned"
  | (blocked) "tr = [ReadClosed False]" "out = Blocked" "enqueued s m = []"
  | (marker) rest where "tr = [ReadClosed False, Get None]" "out = Returned"
      "enqueued s m = None # rest"
  | (dropped) c ds rest where
      "tr = ReadClosed False # Get (Some c) # drained ds @ [GetNoWait (Some None)]"
      "out = Returned" "enqueued s m = Some c # map Some ds @ None # rest"
  | (yield) c ds s' m' tr' where
      "tr = ReadClosed False # Get (Some c) # drained ds @
         [GetNoWait None, Yield (concat (c # ds))] @ tr'"
      "generator s' m' = (tr', out)" "load s' m' < load s m"
      "enqueued s m = Some c # map Some ds @ enqueued s' m'"
proof -
  from generator_cases[OF g] show thesis
  proof (elim disjE exE conjE)
    assume "tr = [ReadClosed True]" "out = Returned"
    then show thesis by (rule closed)
  next
    assume "tr = [ReadClosed False]" "out = Blocked" "enqueued s m = []"
    then show thesis by (rule blocked)
  next
    fix rest
    assume "tr = [ReadClosed False, Get None]" "out = Returned" "enqueued s m = None # rest"
    then show thesis by (rule marker)
  next
    fix c ds rest
    assume "tr = ReadClosed False # Get (Some c) # drained ds @ [GetNoWait (Some None)]"
      "out = Returned" "enqueued s m = Some c # map Some ds @ None # rest"
    then show thesis by (rule dropped)
  next
    fix c ds s' m' tr'
    assume t: "tr = ReadClosed False # Get (Some c) # drained ds @
        [GetNoWait None, Yield (concat (c # ds))] @ tr'"
      and r: "generator s' m' = (tr', out)"
      and e: "enqueued s m = Some c # map Some ds @ enqueued s' m'"
    from t r generator_load[OF e] e show thesis by (rule yield)
  qed
qed

lemma first_occurrence:
  assumes "xs @ y # ys = pre @ a # post" "\<forall>x\<in>set xs. \<not> P x" "P a"
  shows "(pre = xs \<and> a = y \<and> post = ys) \<or> (\<exists>pre'. pre = xs @ y # pre' \<and> ys = pre' @ a # post)"
  using assms
proof (induction xs arbitrary: pre)
  case Nil
  then show ?case by (cases pre) auto
next
  case (Cons x xs)
  show ?case
  proof (cases pre)
    case Nil
    with Cons.prems show ?thesis by auto
  next
    case (Cons p pre2)
    with Cons.prems have "xs @ y # ys = pre2 @ a # post" "\<forall>x\<in>set xs. \<not> P x" "p = x"
      by auto
    with Cons.IH[of pre2] \<open>P a\<close> Cons show ?thesis by auto
  qed
qed

lemma yields_drained: "yields (drained ds @ tr) = yields tr"
  by (induction ds) (simp_all add: drained_def)

lemma unyielded_drained: "unyielded acc (drained ds @ tr) = unyielded (acc @ ds) tr"
  by (induction ds arbitrary: acc) (simp_all add: drained_def)

lemma generator_nonempty: "generator s m = (tr, out) \<Longrightarrow> tr \<noteq> []"
  by (drule generator_cases) auto

lemma marker_split:
  "map Some xs @ E = map Some cs @ [None] \<Longrightarrow> \<exists>cs'. E = map Some cs' @ [None] \<and> cs = xs @ cs'"
proof (induction xs arbitrary: cs)
  case Nil
  then show ?case by simp
next
  case (Cons x xs)
  then show ?case by (cases cs) auto
qed

lemma marker_last:
  assumes "map Some xs @ None # rest = map Some cs @ [None]"
  shows "cs = xs \<and> rest = []"
proof -
  from marker_split[OF assms] obtain cs' where
    a: "None # rest = map Some cs' @ [None]" and b: "cs = xs @ cs'" by blast
  from a have "cs' = []" by (cases cs') auto
  with a b show ?thesis by simp
qed

lemma dequeued_drained: "dequeued (drained ds @ tr) = ds @ dequeued tr"
  by (induction ds) (simp_all add: drained_def)

lemma closed_fold_apply:
  "\<not> closed m \<Longrightarrow> SetClosed True \<notin> set es \<Longrightarrow> \<not> closed (fold apply_effect es m)"
proof (induction es arbitrary: m)
  case Nil
  then show ?case by simp
next
  case (Cons e es)
  then show ?case
    by (cases e)
      (simp_all add: open_stream_def stop_stream_def close_stream_def set_closed_def put_def
        terminate_def)
qed

lemma advance_flag:
  "advance s m = (s', m') \<Longrightarrow> \<not> flag_set s m \<Longrightarrow> \<not> flag_set s' m'"
  by (cases s) (auto simp: flag_set_def dest: closed_fold_apply)

lemma read_closed_flag:
  assumes "read_closed s m = (b, s', m')" and "\<not> flag_set s m"
  shows "\<not> b \<and> \<not> flag_set s' m'"
proof -
  obtain s1 m1 where a: "advance s m = (s1, m1)" by (cases "advance s m")
  with assms(1) have "b = closed m1" "s' = s1" "m' = m1" by (auto simp: read_closed_def)
  with advance_flag[OF a assms(2)] show ?thesis by (simp add: flag_set_def)
qed

lemma get_nowait_flag:
  assumes "get_nowait s m = (r, s', m')" and "\<not> flag_set s m"
  shows "\<not> flag_set s' m'"
proof -
  obtain s1 m1 where a: "advance s m = (s1, m1)" by (cases "advance s m")
  with assms(1) have "s' = s1" "closed m' = closed m1"
    by (auto simp: get_nowait_def split: list.splits)
  with advance_flag[OF a assms(2)] show ?thesis by (simp add: flag_set_def)
qed

lemma wait_flag:
  "wait s m = Some (x, s', m') \<Longrightarrow> \<not> flag_set s m \<Longrightarrow> \<not> flag_set s' m'"
proof (induction s m rule: wait.induct)
  case (1 m)
  then show ?case by (auto simp: flag_set_def split: list.splits)
next
  case (2 es s m)
  show ?case
  proof (cases "buff m")
    case Nil
    from "2.prems"(2) have "\<not> flag_set s (fold apply_effect es m)"
      by (auto simp: flag_set_def dest: closed_fold_apply)
    with 2 Nil show ?thesis by simp
  next
    case (Cons y q)
    with "2.prems" show ?thesis by (auto simp: flag_set_def)
  qed
qed

lemma get_block_flag:
  assumes "get_block s m = Some (x, s', m')" and "\<not> flag_set s m"
  shows "\<not> flag_set s' m'"
proof -
  obtain s1 m1 where a: "advance s m = (s1, m1)" by (cases "advance s m")
  with assms(1) have "wait s1 m1 = Some (x, s', m')" by (simp add: get_block_def)
  from wait_flag[OF this advance_flag[OF a assms(2)]] show ?thesis .
qed

lemma drain_flag:
  "drain s m d = (tr, Some (data, s', m')) \<Longrightarrow> \<not> flag_set s m \<Longrightarrow> \<not> flag_set s' m'"
proof (induction s m d arbitrary: tr rule: drain.induct)
  case (1 s m d)
  obtain r s1 m1 where g: "get_nowait s m = (r, s1, m1)" by (cases "get_nowait s m")
  note f1 = get_nowait_flag[OF g "1.prems"(2)]
  show ?case
  proof (cases r)
    case None
    with g "1.prems"(1) have "s' = s1" "m' = m1" by (simp_all add: drain.simps[of s m])
    with f1 show ?thesis by simp
  next
    case (Some x)
    show ?thesis
    proof (cases x)
      case None
      with Some g "1.prems"(1) show ?thesis by (simp add: drain.simps[of s m])
    next
      case (Some chunk)
      with \<open>r = Some x\<close> g have g': "get_nowait s m = (Some (Some chunk), s1, m1)" by simp
      with "1.prems"(1) obtain tr' where
        d: "drain s1 m1 (d @ [chunk]) = (tr', Some (data, s', m'))"
        by (auto simp: drain.simps[of s m] split: prod.splits)
      from "1.IH"[OF g'[symmetric] refl refl refl d f1] show ?thesis .
    qed
  qed
qed

lemma generator_guard_stop:
  assumes "generator s m = (tr, out)" and "last tr = ReadClosed True"
  shows "flag_set s m"
  using assms
proof (induction "load s m" arbitrary: s m tr out rule: less_induct)
  case less
  show ?case
  proof (rule ccontr)
    assume nf: "\<not> flag_set s m"
    obtain b s1 m1 where rc: "read_closed s m = (b, s1, m1)" by (cases "read_closed s m")
    from read_closed_flag[OF rc nf] have b: "\<not> b" and f1: "\<not> flag_set s1 m1" by simp_all
    note e1 = read_closed_enqueued[OF rc]
    show False
    proof (cases "get_block s1 m1")
      case None
      with rc b less.prems show False by (auto simp: generator.simps[of s m])
    next
      case (Some p)
      obtain x s2 m2 where p: "p = (x, s2, m2)" by (cases p)
      note gb = Some[unfolded p]
      note e2 = get_block_Some[OF gb]
      note f2 = get_block_flag[OF gb f1]
      show False
      proof (cases x)
        case None
        with rc b gb less.prems show False by (auto simp: generator.simps[of s m])
      next
        case (Some c)
        note xc = this
        obtain dtr r where dr: "drain s2 m2 [c] = (dtr, r)" by (cases "drain s2 m2 [c]")
        show False
        proof (cases r)
          case None
          from drain_None[OF dr[unfolded None]] obtain ds rest where
            "dtr = drained ds @ [GetNoWait (Some None)]" by blast
          with rc b gb xc dr None less.prems show False
            by (auto simp: generator.simps[of s m])
        next
          case (Some q)
          obtain data s3 m3 where q: "q = (data, s3, m3)" by (cases q)
          note d = dr[unfolded Some q]
          from drain_Some[OF d] obtain ds where
            e3: "enqueued s2 m2 = map Some ds @ enqueued s3 m3" by blast
          note f3 = drain_flag[OF d f2]
          obtain tr' out' where g: "generator s3 m3 = (tr', out')" by (cases "generator s3 m3")
          from rc b gb xc dr Some q g less.prems(1)
          have t: "tr = ReadClosed False # Get (Some c) # dtr @ Yield (concat data) # tr'"
            by (auto simp: generator.simps[of s m])
          from generator_nonempty[OF g] t have "last tr = last tr'" by simp
          with less.prems(2) have l: "last tr' = ReadClosed True" by simp
          from e1 e2 e3 xc have "enqueued s m = Some c # map Some ds @ enqueued s3 m3" by simp
          then have "load s3 m3 < load s m" by (rule generator_load)
          from less.hyps[OF this g l] f3 show False by simp
        qed
      qed
    qed
  qed
qed

lemma generator_account:
  assumes "generator s m = (tr, out)" and "enqueued s m = map Some cs @ [None]"
  shows "out = Returned \<and> prefix (dequeued tr) cs \<and>
     concat (yields tr) @ concat (unyielded [] tr) = concat (dequeued tr) \<and>
     (last tr \<noteq> GetNoWait (Some None) \<longrightarrow> unyielded [] tr = []) \<and>
     (marker_read (last tr) \<longrightarrow> dequeued tr = cs) \<and>
     (last tr = ReadClosed True \<or> marker_read (last tr))"
  using assms
proof (induction "load s m" arbitrary: s m tr cs rule: less_induct)
  case less
  from less.prems(1) show ?case
  proof (cases rule: generator_trace_cases)
    case closed
    then show ?thesis by (simp add: marker_read_def)
  next
    case blocked
    with less.prems(2) show ?thesis by simp
  next
    case (marker rest)
    from marker(3) less.prems(2) have "map Some [] @ None # rest = map Some cs @ [None]" by simp
    from marker_last[OF this] have "cs = []" by simp
    with marker show ?thesis by (simp add: marker_read_def)
  next
    case (dropped c ds rest)
    from dropped(3) less.prems(2) have "map Some (c # ds) @ None # rest = map Some cs @ [None]"
      by simp
    from marker_last[OF this] have "cs = c # ds" by simp
    with dropped show ?thesis
      by (simp add: yields_drained unyielded_drained dequeued_drained marker_read_def)
  next
    case (yield c ds s' m' tr')
    from yield(4) less.prems(2) have "map Some (c # ds) @ enqueued s' m' = map Some cs @ [None]"
      by simp
    from marker_split[OF this] obtain cs' where
      e: "enqueued s' m' = map Some cs' @ [None]" and cs: "cs = (c # ds) @ cs'" by blast
    note ih = less.hyps[OF yield(3,2) e]
    from generator_nonempty[OF yield(2)] yield(1) have l: "last tr = last tr'" by simp
    from yield(1) have y: "yields tr = concat (c # ds) # yields tr'"
      by (simp add: yields_drained)
    from yield(1) have u: "unyielded [] tr = unyielded [] tr'"
      by (simp add: unyielded_drained)
    from yield(1) have d: "dequeued tr = (c # ds) @ dequeued tr'"
      by (simp add: dequeued_drained)
    from ih l y u d cs show ?thesis by simp
  qed
qed

lemma demo_run: "generator demo_sched (mic_enter mic_init) = (demo_trace, Returned)"
  by (simp add: generator.simps drain.simps demo_sched_def demo_trace_def mic_enter_def mic_init_def
      read_closed_def get_block_def get_nowait_def open_stream_def stop_stream_def close_stream_def
      set_closed_def put_def terminate_def)

lemma demo_enqueued: "enqueued demo_sched (mic_enter mic_init) = map Some [[1, 2], [3], [4]] @ [None]"
  by (simp add: enqueued_def demo_sched_def mic_enter_def mic_init_def open_stream_def set_closed_def)

lemma calm_run: "generator calm_sched (mic_enter mic_init) = (calm_trace, Returned)"
  by (simp add: generator.simps drain.simps calm_sched_def calm_trace_def mic_enter_def mic_init_def
      read_closed_def get_block_def get_nowait_def open_stream_def stop_stream_def close_stream_def
      set_closed_def put_def terminate_def)

lemma calm_enqueued: "enqueued calm_sched (mic_enter mic_init) = map Some [[1, 2]] @ [None]"
  by (simp add: enqueued_def calm_sched_def mic_enter_def mic_init_def open_stream_def set_closed_def)

lemma guard_run: "generator guard_sched (mic_enter mic_init) = (guard_trace, Returned)"
  by (simp add: generator.simps drain.simps guard_sched_def guard_trace_def mic_enter_def
      mic_init_def read_closed_def get_block_def get_nowait_def open_stream_def stop_stream_def
      close_stream_def set_closed_def put_def terminate_def)

lemma guard_enqueued:
  "enqueued guard_sched (mic_enter mic_init) = map Some [[1], [2], [3]] @ [None]"
  by (simp add: enqueued_def guard_sched_def mic_enter_def mic_init_def open_stream_def
      set_closed_def)

section \<open>Facts about the loop\<close>

lemma spaces_max: "spaces k = replicate (nat (max 0 k)) space"
  by (simp add: spaces_def max_def)

lemma re_search_whole:
  assumes kw: "kw \<in> set exit_keywords"
    and eq: "map (to_lower u) t = map (to_lower u) kw"
    and first: "is_word u (hd t)" and lst: "is_word u (last t)"
  shows "re_search u t"
proof -
  from eq have len: "length t = length kw" by (rule map_eq_imp_length_eq)
  from kw have kne: "kw \<noteq> []" by (auto simp: exit_keywords_def owari_def shuuryou_def)
  with len have ne: "t \<noteq> []" by auto
  then have h: "t ! 0 = hd t" and l: "t ! (length t - 1) = last t"
    by (simp_all add: hd_conv_nth last_conv_nth)
  from ne first h have b0: "at_boundary u t 0"
    by (simp add: at_boundary_def)
  from kne lst l len have b1: "at_boundary u t (0 + length kw)"
    by (simp add: at_boundary_def)
  from eq len have lit: "literal_at u kw t 0"
    by (simp add: literal_at_def)
  from kw lit b1 have "list_ex (\<lambda>kw. literal_at u kw t 0 \<and> at_boundary u t (0 + length kw)) exit_keywords"
    unfolding list_ex_iff by blast
  with b0 have "match_at u t 0" by (simp add: match_at_def)
  moreover have "0 \<in> set [0..<Suc (length t)]" by simp
  ultimately show ?thesis unfolding re_search_def list_ex_iff by blast
qed

lemma re_search_contains: "re_search u t \<Longrightarrow> contains_keyword u t"
  unfolding re_search_def contains_keyword_def match_at_def list_ex_iff by blast

lemma step_final_exit:
  assumes "results r = res # others" and "alternatives res = alt # alts" and "is_final res"
    and "re_search u (transcript alt)"
  shows "step u n r =
    ([Write (transcript alt @ spaces (n - int (length (transcript alt))) @ [newline]),
      Write (ascii ''Exiting..'' @ [newline])], n, Break)"
  using assms by (simp add: step_def py_print_def)

lemma step_final_continue:
  assumes "results r = res # others" and "alternatives res = alt # alts" and "is_final res"
    and "\<not> re_search u (transcript alt)"
  shows "step u n r =
    ([Write (transcript alt @ spaces (n - int (length (transcript alt))) @ [newline])],
     0, Continue)"
  using assms by (simp add: step_def py_print_def)

lemma step_skipped: "skipped r \<Longrightarrow> step u n r = ([], n, Continue)"
  by (auto simp: skipped_def step_def split: list.splits)

lemma interims_append: "interims (xs @ ys) = interims xs @ interims ys"
  by (induction xs) (simp_all split: option.splits)

lemma interims_take_Suc:
  "k < length rs \<Longrightarrow> interims (take (Suc k) rs) = interims (take k rs) @ interims [rs ! k]"
  by (simp add: take_Suc_conv_app_nth interims_append del: interims.simps)

lemma starts_length: "length (starts u n rs) \<le> length rs"
  by (induction rs arbitrary: n) (auto split: prod.splits ctrl.splits)

lemma starts_0: "rs \<noteq> [] \<Longrightarrow> starts u n rs ! 0 = n"
  by (cases rs) simp_all

lemma starts_step:
  "Suc k < length (starts u n rs) \<Longrightarrow>
   \<exists>ws. step u (starts u n rs ! k) (rs ! k) = (ws, starts u n rs ! Suc k, Continue)"
proof (induction rs arbitrary: n k)
  case Nil
  then show ?case by simp
next
  case (Cons r rs)
  obtain ws n' c where st: "step u n r = (ws, n', c)" by (cases "step u n r")
  with Cons.prems have c: "c = Continue" by (cases c) auto
  with st have s: "starts u n (r # rs) = n # starts u n' rs" by simp
  show ?case
  proof (cases k)
    case 0
    with Cons.prems s have "starts u n' rs \<noteq> []" by auto
    then have "rs \<noteq> []" by auto
    with 0 s st c show ?thesis by (simp add: starts_0)
  next
    case (Suc j)
    with Cons.prems s have "Suc j < length (starts u n' rs)" by simp
    from Cons.IH[OF this] Suc s show ?thesis by simp
  qed
qed

lemma loop_append:
  "\<not> exited (loop u n ps) \<Longrightarrow>
   loop u n (ps @ rs) =
     (loop u (num_chars_printed (loop u n ps)) rs)
       \<lparr>written := written (loop u n ps) @
          written (loop u (num_chars_printed (loop u n ps)) rs)\<rparr>"
proof (induction ps arbitrary: n)
  case Nil
  show ?case by simp
next
  case (Cons p ps)
  obtain ws n' c where st: "step u n p = (ws, n', c)" by (cases "step u n p")
  with Cons.prems have c: "c = Continue" by (cases c) auto
  with st Cons.prems have "\<not> exited (loop u n' ps)" by (simp add: Let_def)
  from Cons.IH[OF this] st c show ?case by (simp add: Let_def)
qed

lemma starts_take:
  "k < length (starts u n rs) \<Longrightarrow>
   starts u n rs ! k = num_chars_printed (loop u n (take k rs)) \<and>
   \<not> exited (loop u n (take k rs))"
proof (induction rs arbitrary: n k)
  case Nil
  then show ?case by simp
next
  case (Cons r rs)
  show ?case
  proof (cases k)
    case 0
    then show ?thesis by simp
  next
    case (Suc j)
    obtain ws n' c where st: "step u n r = (ws, n', c)" by (cases "step u n r")
    with Cons.prems Suc have c: "c = Continue" by (cases c) auto
    with st Cons.prems Suc have "j < length (starts u n' rs)" by simp
    from Cons.IH[OF this] st c Suc show ?thesis by (simp add: Let_def)
  qed
qed

lemma step_counter_ok:
  assumes "step u n r = (ws, n', c)" and "counter_ok n ps"
  shows "counter_ok n' (ps @ interims [r])"
  using assms
  by (auto simp: step_def counter_ok_def Let_def split: list.splits if_splits)

lemma starts_counter_ok:
  "k < length (starts u 0 rs) \<Longrightarrow> counter_ok (starts u 0 rs ! k) (interims (take k rs))"
proof (induction k)
  case 0
  then have "rs \<noteq> []" by auto
  then show ?case by (simp add: starts_0 counter_ok_def)
next
  case (Suc k)
  then have ok: "counter_ok (starts u 0 rs ! k) (interims (take k rs))" by simp
  from Suc.prems starts_length[of u 0 rs] have k: "k < length rs" by simp
  from starts_step[OF Suc.prems] obtain ws where
    "step u (starts u 0 rs ! k) (rs ! k) = (ws, starts u 0 rs ! Suc k, Continue)" ..
  from step_counter_ok[OF this ok] interims_take_Suc[OF k] show ?case by simp
qed

lemma no_keyword_konnichiwa: "\<not> contains_keyword demo_db konnichiwa"
  by (simp add: contains_keyword_def konnichiwa_def exit_keywords_def owari_def shuuryou_def
      literal_at_def demo_db_def upt_rec)


lemma demo_starts: "starts demo_db 0 demo_responses = [0, 5, 5, 0]"
proof -
  have "\<not> re_search demo_db konnichiwa"
    using no_keyword_konnichiwa by (auto dest: re_search_contains)
  then show ?thesis
    by (simp add: demo_responses_def step_def interim_def final_def ascii_def spaces_def
        py_print_def)
qed

section \<open>The claims\<close>

text \<open>
  C1, as the claim states it, fails, in two ways. In the first session the chunks 1 2, 3
  and 4 are enqueued and then the marker, and the marker is dequeued by the non-blocking
  read that follows the blocking read of chunk 4: the generator returns at once, and
  chunk 4 is never handed out. In the third session the closed flag is set while chunks 2
  and 3 wait in the queue: the loop guard ends the generator, and they are never dequeued.
\<close>

theorem yields_all_chunks_counterexample:
  "enqueued demo_sched (mic_enter mic_init) = map Some [[1, 2], [3], [4]] @ [None] \<and>
   generator demo_sched (mic_enter mic_init) = (demo_trace, Returned) \<and>
   concat (yields demo_trace) = [1, 2, 3] \<and>
   concat (yields demo_trace) \<noteq> concat [[1, 2], [3], [4]] \<and>
   enqueued guard_sched (mic_enter mic_init) = map Some [[1], [2], [3]] @ [None] \<and>
   generator guard_sched (mic_enter mic_init) = (guard_trace, Returned) \<and>
   concat (yields guard_trace) = [1] \<and>
   concat (yields guard_trace) \<noteq> concat [[1], [2], [3]]"
  by (simp add: demo_enqueued demo_run guard_enqueued guard_run)
    (simp add: demo_trace_def guard_trace_def)

text \<open>
  C1, amended. When chunks and then the marker are enqueued, the generator returns. The
  chunks it dequeues are the first of the enqueued chunks, in their order, and the blocks it
  yields, followed by the chunks dequeued since the last \<open>yield\<close>, are exactly the
  dequeued bytes: nothing is reordered or duplicated, and the yielded bytes are a prefix of
  the enqueued bytes. Chunks are left unyielded only when the run ends at a non-blocking
  read that returns the marker: the chunks drained in that pass are discarded. A run ends
  either at a read that returns the marker, and then every enqueued chunk has been
  dequeued (so nothing is missing when it is the blocking read), or at the loop guard, and
  then every dequeued chunk has been yielded, the chunks still in the queue are never
  read, and the closed flag has been set.
\<close>

theorem yields_up_to_marker_pass:
  assumes "generator s m = (tr, out)" and "enqueued s m = map Some cs @ [None]"
  shows "out = Returned \<and> prefix (concat (yields tr)) (concat cs) \<and>
     (marker_read (last tr) \<longrightarrow> concat (yields tr) @ concat (unyielded [] tr) = concat cs) \<and>
     (last tr = Get None \<longrightarrow> concat (yields tr) = concat cs) \<and>
     prefix (dequeued tr) cs \<and>
     concat (yields tr) @ concat (unyielded [] tr) = concat (dequeued tr) \<and>
     (last tr \<noteq> GetNoWait (Some None) \<longrightarrow>
        unyielded [] tr = [] \<and> concat (yields tr) = concat (dequeued tr)) \<and>
     (marker_read (last tr) \<longrightarrow> dequeued tr = cs) \<and>
     (last tr = ReadClosed True \<or> marker_read (last tr)) \<and>
     (last tr = ReadClosed True \<longrightarrow> closed m \<or> SetClosed True \<in> set (concat s))"
proof -
  note a = generator_account[OF assms]
  from a have acc: "concat (yields tr) @ concat (unyielded [] tr) = concat (dequeued tr)"
    by blast
  from a obtain zs where zs: "cs = dequeued tr @ zs" by (auto simp: prefix_def)
  from acc zs have p: "prefix (concat (yields tr)) (concat cs)"
    by (metis concat_append prefixI append.assoc)
  have m: "concat (yields tr) @ concat (unyielded [] tr) = concat cs" if "marker_read (last tr)"
    using a acc that by simp
  have n: "unyielded [] tr = [] \<and> concat (yields tr) = concat (dequeued tr)"
    if "last tr \<noteq> GetNoWait (Some None)"
  proof -
    from a that have "unyielded [] tr = []" by blast
    with acc show ?thesis by simp
  qed
  have g: "concat (yields tr) = concat cs" if l: "last tr = Get None"
  proof -
    from l have "marker_read (last tr)" by (simp add: marker_read_def)
    with a have "dequeued tr = cs" by blast
    with n l show ?thesis by simp
  qed
  have f: "closed m \<or> SetClosed True \<in> set (concat s)" if "last tr = ReadClosed True"
    using generator_guard_stop[OF assms(1) that] by (simp add: flag_set_def)
  from a p m g n f show ?thesis by blast
qed

theorem yields_up_to_marker_pass_witness:
  "generator demo_sched (mic_enter mic_init) = (demo_trace, Returned) \<and>
   enqueued demo_sched (mic_enter mic_init) = map Some [[1, 2], [3], [4]] @ [None] \<and>
   last demo_trace = GetNoWait (Some None) \<and>
   dequeued demo_trace = [[1, 2], [3], [4]] \<and>
   yields demo_trace = [[1, 2, 3]] \<and>
   unyielded [] demo_trace = [[4]] \<and>
   concat (yields demo_trace) @ concat (unyielded [] demo_trace) = concat [[1, 2], [3], [4]] \<and>
   generator calm_sched (mic_enter mic_init) = (calm_trace, Returned) \<and>
   enqueued calm_sched (mic_enter mic_init) = map Some [[1, 2]] @ [None] \<and>
   last calm_trace = Get None \<and>
   concat (yields calm_trace) = concat [[1, 2]] \<and>
   generator guard_sched (mic_enter mic_init) = (guard_trace, Returned) \<and>
   enqueued guard_sched (mic_enter mic_init) = map Some [[1], [2], [3]] @ [None] \<and>
   last guard_trace = ReadClosed True \<and>
   dequeued guard_trace = [[1]] \<and>
   prefix (dequeued guard_trace) [[1], [2], [3]] \<and>
   unyielded [] guard_trace = [] \<and>
   concat (yields guard_trace) = concat (dequeued guard_trace) \<and>
   SetClosed True \<in> set (concat guard_sched)"
proof -
  note demo = yields_up_to_marker_pass[OF demo_run demo_enqueued]
  note calm = yields_up_to_marker_pass[OF calm_run calm_enqueued]
  note guard = yields_up_to_marker_pass[OF guard_run guard_enqueued]
  have dl: "last demo_trace = GetNoWait (Some None)"
    and dd: "dequeued demo_trace = [[1, 2], [3], [4]]"
    and dy: "yields demo_trace = [[1, 2, 3]]"
    and du: "unyielded [] demo_trace = [[4]]"
    by (simp_all add: demo_trace_def)
  from dl have "marker_read (last demo_trace)" by (simp add: marker_read_def)
  with demo have da:
    "concat (yields demo_trace) @ concat (unyielded [] demo_trace) = concat [[1, 2], [3], [4]]"
    by blast
  have cl: "last calm_trace = Get None" by (simp add: calm_trace_def)
  with calm have ca: "concat (yields calm_trace) = concat [[1, 2]]" by blast
  have gl: "last guard_trace = ReadClosed True"
    and gd: "dequeued guard_trace = [[1]]"
    by (simp_all add: guard_trace_def)
  from guard have gp: "prefix (dequeued guard_trace) [[1], [2], [3]]" by blast
  from gl have "last guard_trace \<noteq> GetNoWait (Some None)" by simp
  with guard have gu: "unyielded [] guard_trace = []"
    and gy: "concat (yields guard_trace) = concat (dequeued guard_trace)"
    by blast+
  have nc: "\<not> closed (mic_enter mic_init)"
    by (simp add: mic_enter_def mic_init_def set_closed_def open_stream_def)
  from guard gl nc have gs: "SetClosed True \<in> set (concat guard_sched)" by blast
  from demo_run demo_enqueued dl dd dy du da calm_run calm_enqueued cl ca
    guard_run guard_enqueued gl gd gp gu gy gs
  show ?thesis by blast
qed

text \<open>
  C2, as the claim states it, fails: the \<open>break\<close> comes before the assignment
  \<open>num_chars_printed = 0\<close>, so the counter keeps its value. After an interim hello the
  final result with the keyword leaves the counter at 5; the line printed is the
  transcript, two padding spaces and the newline.
\<close>

theorem final_owari_resets_counter_counterexample:
  "listen_print_loop demo_db [interim (ascii ''hello''), final owari, interim (ascii ''hi'')] =
     \<lparr>written =
        [Write (ascii ''hello'' @ [carriage_return]), Flush,
         Write (owari @ replicate 2 space @ [newline]),
         Write (ascii ''Exiting..'' @ [newline])],
      num_chars_printed = 5, exited = True, unread = [interim (ascii ''hi'')]\<rparr> \<and>
   num_chars_printed (listen_print_loop demo_db
     [interim (ascii ''hello''), final owari, interim (ascii ''hi'')]) \<noteq> 0"
proof -
  have "re_search demo_db owari"
    by (intro re_search_whole[of owari]) (simp_all add: exit_keywords_def owari_def demo_db_def)
  then show ?thesis
    by (simp add: listen_print_loop_def step_def interim_def final_def spaces_def ascii_def
        py_print_def owari_def numeral_2_eq_2)
qed

text \<open>
  C2, amended. For a final result whose transcript is the first keyword, the loop prints
  the transcript followed by \<open>max 0 (num_chars_printed - 3)\<close> spaces and a newline, prints
  the exit notice, and ends without looking at any further response; the counter keeps
  its value. The two outer code points of the keyword are word characters in Python's
  tables, which is what the hypotheses on the tables say.
\<close>

theorem final_owari_exits_without_reset:
  assumes "results r = res # others" and "alternatives res = alt # alts" and "is_final res"
    and "transcript alt = owari"
    and "is_word u 0x7D42" and "is_word u 0x308A"
  shows "loop u n (r # rs) =
      \<lparr>written =
         [Write (owari @ spaces (n - 3) @ [newline]), Write (ascii ''Exiting..'' @ [newline])],
       num_chars_printed = n, exited = True, unread = rs\<rparr>"
proof -
  have kw: "owari \<in> set exit_keywords" by (simp add: exit_keywords_def)
  from assms(4,5,6) have "re_search u (transcript alt)"
    by (intro re_search_whole[OF kw]) (simp_all add: owari_def)
  from step_final_exit[OF assms(1,2,3) this] assms(4) show ?thesis
    by (simp add: owari_def)
qed

theorem final_owari_exits_without_reset_witness:
  "results (final owari) = \<lparr>alternatives = [\<lparr>transcript = owari\<rparr>], is_final = True\<rparr> # [] \<and>
   is_word demo_db 0x7D42 \<and> is_word demo_db 0x308A \<and>
   loop demo_db 5 [final owari, interim (ascii ''hi'')] =
     \<lparr>written = [Write (owari @ replicate 2 space @ [newline]),
                 Write (ascii ''Exiting..'' @ [newline])],
      num_chars_printed = 5, exited = True, unread = [interim (ascii ''hi'')]\<rparr>"
proof -
  let ?res = "\<lparr>alternatives = [\<lparr>transcript = owari\<rparr>], is_final = True\<rparr>"
  have a: "results (final owari) = ?res # []" by (simp add: final_def)
  have b: "alternatives ?res = \<lparr>transcript = owari\<rparr> # []" by simp
  have c: "is_final ?res" by simp
  have d: "transcript \<lparr>transcript = owari\<rparr> = owari" by simp
  have e: "is_word demo_db 0x7D42" by (simp add: demo_db_def)
  have f: "is_word demo_db 0x308A" by (simp add: demo_db_def)
  from final_owari_exits_without_reset[OF a b c d e f, of 5 "[interim (ascii ''hi'')]"] a e f
  show ?thesis
    by (simp add: spaces_def numeral_2_eq_2)
qed

text \<open>
  C3. For an interim result with transcript \<open>t\<close> the loop writes \<open>t\<close>, then exactly
  \<open>max 0 (num_chars_printed - len t)\<close> spaces, then a carriage return and no newline,
  and the counter becomes \<open>len t\<close>. An interim hello followed by an interim hi makes the
  second write carry three padding spaces.
\<close>

theorem interim_overwrites_in_place:
  assumes "results r = res # others" and "alternatives res = alt # alts" and "\<not> is_final res"
  shows "step u n r =
      ([Write (transcript alt @
               replicate (nat (max 0 (n - int (length (transcript alt))))) space @
               [carriage_return]), Flush],
       int (length (transcript alt)), Continue) \<and>
     written (listen_print_loop u [interim (ascii ''hello''), interim (ascii ''hi'')]) =
       [Write (ascii ''hello'' @ [carriage_return]), Flush,
        Write (ascii ''hi'' @ replicate 3 space @ [carriage_return]), Flush]"
proof
  from assms show "step u n r =
      ([Write (transcript alt @
               replicate (nat (max 0 (n - int (length (transcript alt))))) space @
               [carriage_return]), Flush],
       int (length (transcript alt)), Continue)"
    by (simp add: step_def spaces_max)
next
  show "written (listen_print_loop u [interim (ascii ''hello''), interim (ascii ''hi'')]) =
       [Write (ascii ''hello'' @ [carriage_return]), Flush,
        Write (ascii ''hi'' @ replicate 3 space @ [carriage_return]), Flush]"
    by (simp add: listen_print_loop_def step_def interim_def spaces_def ascii_def
        numeral_3_eq_3)
qed

theorem interim_overwrites_in_place_witness:
  "results (interim (ascii ''hi'')) =
     \<lparr>alternatives = [\<lparr>transcript = ascii ''hi''\<rparr>], is_final = False\<rparr> # [] \<and>
   step demo_db 5 (interim (ascii ''hi'')) =
     ([Write (ascii ''hi'' @ replicate 3 space @ [carriage_return]), Flush], 2, Continue)"
proof -
  let ?res = "\<lparr>alternatives = [\<lparr>transcript = ascii ''hi''\<rparr>], is_final = False\<rparr>"
  have a: "results (interim (ascii ''hi'')) = ?res # []"
    by (simp add: interim_def)
  have b: "alternatives ?res = \<lparr>transcript = ascii ''hi''\<rparr> # []" by simp
  have c: "\<not> is_final ?res" by simp
  from interim_overwrites_in_place[OF a b c, of demo_db 5] a show ?thesis
    by (simp add: ascii_def numeral_3_eq_3)
qed

text \<open>
  C4. Once a queue read of the generator returns the end-of-stream marker, be it the
  blocking read or a non-blocking read of the drain loop, the trace ends there: no
  further element is yielded, no further queue read is made, and the generator has
  returned.
\<close>

theorem generator_stops_at_marker:
  assumes "generator s m = (tr, out)" and "tr = pre @ a # post" and "marker_read a"
  shows "post = [] \<and> out = Returned"
  using assms
proof (induction "load s m" arbitrary: s m tr out pre rule: less_induct)
  case less
  let ?P = marker_read
  from generator_cases[OF less.prems(1)]
  consider (closed) "tr = [ReadClosed True]" "out = Returned"
    | (blocked) "tr = [ReadClosed False]"
    | (marker) "tr = [ReadClosed False] @ Get None # []" "out = Returned"
    | (dropped) c ds where
        "tr = (ReadClosed False # Get (Some c) # drained ds) @ GetNoWait (Some None) # []"
        "out = Returned"
    | (yield) c ds s' m' tr' where
        "tr = (ReadClosed False # Get (Some c) # drained ds @ [GetNoWait None]) @
           Yield (concat (c # ds)) # tr'"
        "generator s' m' = (tr', out)" "load s' m' < load s m"
    by (auto dest: generator_load)
  then show ?case
  proof cases
    case closed
    with less.prems(2,3) show ?thesis
      by (cases pre) (auto simp: marker_read_def)
  next
    case blocked
    with less.prems(2,3) show ?thesis
      by (cases pre) (auto simp: marker_read_def)
  next
    case marker
    have "\<forall>x\<in>set [ReadClosed False]. \<not> marker_read x"
      by (simp add: marker_read_def)
    from first_occurrence[OF marker(1)[unfolded less.prems(2), symmetric] this less.prems(3)]
    have "post = []" by auto
    with marker show ?thesis by simp
  next
    case dropped
    have "\<forall>x\<in>set (ReadClosed False # Get (Some c) # drained ds). \<not> marker_read x"
      by (auto simp: marker_read_def drained_def)
    from first_occurrence[OF dropped(1)[unfolded less.prems(2), symmetric] this less.prems(3)]
    have "post = []" by auto
    with dropped show ?thesis by simp
  next
    case yield
    have "\<forall>x\<in>set (ReadClosed False # Get (Some c) # drained ds @ [GetNoWait None]).
        \<not> marker_read x"
      by (auto simp: marker_read_def drained_def)
    from first_occurrence[OF yield(1)[unfolded less.prems(2), symmetric] this less.prems(3)]
    obtain pre' where "tr' = pre' @ a # post"
      using less.prems(3) by (auto simp: marker_read_def)
    from less.hyps[OF yield(3,2) this less.prems(3)] show ?thesis .
  qed
qed

theorem generator_stops_at_marker_witness:
  "generator demo_sched (mic_enter mic_init) =
     ([ReadClosed False, Get (Some [1, 2]), GetNoWait (Some (Some [3])), GetNoWait None,
       Yield [1, 2, 3], ReadClosed False, Get (Some [4])] @ GetNoWait (Some None) # [],
      Returned) \<and>
   marker_read (GetNoWait (Some None))"
proof -
  have run: "generator demo_sched (mic_enter mic_init) = (demo_trace, Returned)"
    by (rule demo_run)
  have split: "demo_trace =
      [ReadClosed False, Get (Some [1, 2]), GetNoWait (Some (Some [3])), GetNoWait None,
       Yield [1, 2, 3], ReadClosed False, Get (Some [4])] @ GetNoWait (Some None) # []"
    by (simp add: demo_trace_def)
  have m: "marker_read (GetNoWait (Some None))"
    by (simp add: marker_read_def)
  from generator_stops_at_marker[OF run split m] run split m show ?thesis by simp
qed

text \<open>
  C5. A response with no result, and a response whose first result has no alternative,
  writes nothing and leaves the counter as it is; the loop goes on with the next response.
\<close>

theorem skipped_response_is_noop:
  assumes "results r = [] \<or> (\<exists>res others. results r = res # others \<and> alternatives res = [])"
  shows "step u n r = ([], n, Continue) \<and> loop u n (r # rs) = loop u n rs"
proof -
  from assms have "step u n r = ([], n, Continue)"
    by (auto simp: step_def)
  then show ?thesis by simp
qed

theorem skipped_response_is_noop_witness:
  "results \<lparr>results = []\<rparr> = [] \<and>
   step demo_db 5 \<lparr>results = []\<rparr> = ([], 5, Continue) \<and>
   loop demo_db 5 [\<lparr>results = []\<rparr>, interim (ascii ''hi'')] =
     loop demo_db 5 [interim (ascii ''hi'')] \<and>
   alternatives \<lparr>alternatives = [], is_final = True\<rparr> = [] \<and>
   step demo_db 5 \<lparr>results = [\<lparr>alternatives = [], is_final = True\<rparr>]\<rparr> = ([], 5, Continue)"
proof -
  have a: "results \<lparr>results = []\<rparr> = [] \<or>
      (\<exists>res others. results \<lparr>results = []\<rparr> = res # others \<and> alternatives res = [])"
    by simp
  let ?r = "\<lparr>results = [\<lparr>alternatives = [], is_final = True\<rparr>]\<rparr>"
  have b: "results ?r = [] \<or> (\<exists>res others. results ?r = res # others \<and> alternatives res = [])"
    by simp
  from skipped_response_is_noop[OF a, of demo_db 5 "[interim (ascii ''hi'')]"]
    skipped_response_is_noop[OF b, of demo_db 5 "[]"]
  show ?thesis by simp
qed

text \<open>
  C6. \<open>__exit__\<close> stops the device stream, closes it, sets the closed flag, enqueues
  the end-of-stream marker and releases the audio interface, in this order: the log grows
  by these five effects. Before the fourth statement the queue is as it was, so the
  marker is enqueued after the stream is stopped and closed.
\<close>

theorem exit_order:
  "log (mic_exit m) =
     log m @ [StopStream, CloseStream, SetClosed True, Put None, Terminate] \<and>
   buff (set_closed True (close_stream (stop_stream m))) = buff m \<and>
   log (set_closed True (close_stream (stop_stream m))) =
     log m @ [StopStream, CloseStream, SetClosed True] \<and>
   closed (mic_exit m) \<and> buff (mic_exit m) = buff m @ [None]"
  by (simp add: mic_exit_def stop_stream_def close_stream_def set_closed_def put_def
      terminate_def)

text \<open>
  C7. For a final result whose transcript contains no keyword, the loop prints the
  transcript (with the padding spaces, if the previous write was longer) and a newline,
  sets the counter to 0 and goes on with the following responses.
\<close>

theorem final_without_keyword_continues:
  assumes "results r = res # others" and "alternatives res = alt # alts" and "is_final res"
    and "\<not> contains_keyword u (transcript alt)"
  shows "step u n r =
      ([Write (transcript alt @ spaces (n - int (length (transcript alt))) @ [newline])],
       0, Continue) \<and>
     loop u n (r # rs) =
       (loop u 0 rs)\<lparr>written :=
          Write (transcript alt @ spaces (n - int (length (transcript alt))) @ [newline]) #
          written (loop u 0 rs)\<rparr>"
proof -
  from assms(4) have "\<not> re_search u (transcript alt)"
    by (auto dest: re_search_contains)
  from step_final_continue[OF assms(1,2,3) this] show ?thesis by (simp add: Let_def)
qed

theorem final_without_keyword_continues_witness:
  "results (final konnichiwa) =
     \<lparr>alternatives = [\<lparr>transcript = konnichiwa\<rparr>], is_final = True\<rparr> # [] \<and>
   \<not> contains_keyword demo_db konnichiwa \<and>
   step demo_db 7 (final konnichiwa) =
     ([Write (konnichiwa @ replicate 2 space @ [newline])], 0, Continue)"
proof -
  let ?res = "\<lparr>alternatives = [\<lparr>transcript = konnichiwa\<rparr>], is_final = True\<rparr>"
  have a: "results (final konnichiwa) = ?res # []" by (simp add: final_def)
  have b: "alternatives ?res = \<lparr>transcript = konnichiwa\<rparr> # []" by simp
  have c: "is_final ?res" by simp
  have d: "\<not> contains_keyword demo_db (transcript \<lparr>transcript = konnichiwa\<rparr>)"
    by (simp add: no_keyword_konnichiwa)
  from final_without_keyword_continues[OF a b c d, of 7] a no_keyword_konnichiwa
  show ?thesis
    by (simp add: spaces_def konnichiwa_def numeral_2_eq_2)
qed

text \<open>
  C8. At the start of every pass of the loop the counter is not negative and is either
  0 or the length of the interim transcript written last; a skipped response leaves it
  as it is for the next pass. The counter at the start of pass \<open>k\<close> is the one that
  \<open>listen_print_loop\<close> reaches over the first \<open>k\<close> responses without leaving the loop,
  and the whole run is that run followed by the loop over the remaining responses from
  this counter.
\<close>

theorem counter_invariant:
  assumes "k < length (starts u 0 rs)"
  shows "starts u 0 rs ! k = num_chars_printed (listen_print_loop u (take k rs)) \<and>
    \<not> exited (listen_print_loop u (take k rs)) \<and>
    listen_print_loop u rs =
      (loop u (starts u 0 rs ! k) (drop k rs))
        \<lparr>written := written (listen_print_loop u (take k rs)) @
           written (loop u (starts u 0 rs ! k) (drop k rs))\<rparr> \<and>
    0 \<le> starts u 0 rs ! k \<and>
    (starts u 0 rs ! k = 0 \<or>
     (interims (take k rs) \<noteq> [] \<and>
      starts u 0 rs ! k = int (length (last (interims (take k rs)))))) \<and>
    (skipped (rs ! k) \<and> Suc k < length (starts u 0 rs) \<longrightarrow>
       starts u 0 rs ! Suc k = starts u 0 rs ! k)"
proof -
  from starts_take[OF assms] have
    t: "starts u 0 rs ! k = num_chars_printed (listen_print_loop u (take k rs))"
    and e: "\<not> exited (listen_print_loop u (take k rs))"
    by (simp_all add: listen_print_loop_def)
  from e have "\<not> exited (loop u 0 (take k rs))" by (simp add: listen_print_loop_def)
  from loop_append[OF this, of "drop k rs"] t
  have l: "listen_print_loop u rs =
      (loop u (starts u 0 rs ! k) (drop k rs))
        \<lparr>written := written (listen_print_loop u (take k rs)) @
           written (loop u (starts u 0 rs ! k) (drop k rs))\<rparr>"
    by (simp add: listen_print_loop_def)
  from starts_counter_ok[OF assms] have
    ok: "0 \<le> starts u 0 rs ! k \<and>
    (starts u 0 rs ! k = 0 \<or>
     (interims (take k rs) \<noteq> [] \<and>
      starts u 0 rs ! k = int (length (last (interims (take k rs))))))"
    by (simp add: counter_ok_def)
  have sk: "starts u 0 rs ! Suc k = starts u 0 rs ! k"
    if "skipped (rs ! k)" and "Suc k < length (starts u 0 rs)"
  proof -
    from starts_step[OF that(2)] obtain ws where
      "step u (starts u 0 rs ! k) (rs ! k) = (ws, starts u 0 rs ! Suc k, Continue)" ..
    with step_skipped[OF that(1), of u "starts u 0 rs ! k"] show ?thesis by simp
  qed
  from t e l ok sk show ?thesis by blast
qed

theorem counter_invariant_witness:
  "1 < length (starts demo_db 0 demo_responses) \<and>
   num_chars_printed (listen_print_loop demo_db (take 1 demo_responses)) = 5 \<and>
   written (listen_print_loop demo_db (take 1 demo_responses)) =
     [Write (ascii ''hello'' @ [carriage_return]), Flush] \<and>
   starts demo_db 0 demo_responses ! 1 = 5 \<and>
   interims (take 1 demo_responses) = [ascii ''hello''] \<and>
   skipped (demo_responses ! 1) \<and>
   starts demo_db 0 demo_responses ! Suc 1 = starts demo_db 0 demo_responses ! 1 \<and>
   num_chars_printed (listen_print_loop demo_db (take (Suc 1) demo_responses)) = 5"
proof -
  have k: "1 < length (starts demo_db 0 demo_responses)"
    by (simp add: demo_starts)
  have k2: "Suc 1 < length (starts demo_db 0 demo_responses)"
    by (simp add: demo_starts)
  have sk: "skipped (demo_responses ! 1)"
    by (simp add: demo_responses_def skipped_def)
  have i: "interims (take 1 demo_responses) = [ascii ''hello'']"
    by (simp add: demo_responses_def interim_def)
  have w: "written (listen_print_loop demo_db (take 1 demo_responses)) =
     [Write (ascii ''hello'' @ [carriage_return]), Flush]"
    by (simp add: demo_responses_def listen_print_loop_def step_def interim_def spaces_def)
  from counter_invariant[OF k] counter_invariant[OF k2] sk k k2 i w show ?thesis
    by (simp add: demo_starts)
qed

text \<open>
  C9. Every block the generator yields is the concatenation of the chunk that the
  blocking read returned and of the chunks that the non-blocking reads after it returned,
  in the order of the reads: the \<open>yield\<close> comes right after these reads and the read that
  found the queue empty. A block is never built from no chunk.
\<close>

theorem yielded_block_is_batch:
  assumes "generator s m = (tr, out)" and "tr = pre @ Yield b # post"
  shows "\<exists>c ds pre'. pre = pre' @ Get (Some c) # drained ds @ [GetNoWait None] \<and>
           b = concat (c # ds)"
  using assms
proof (induction "load s m" arbitrary: s m tr out pre rule: less_induct)
  case less
  have y: "is_yield (Yield b)" by simp
  from generator_cases[OF less.prems(1)]
  consider (closed) "tr = [ReadClosed True]"
    | (blocked) "tr = [ReadClosed False]"
    | (marker) "tr = [ReadClosed False, Get None]"
    | (dropped) c ds where
        "tr = ReadClosed False # Get (Some c) # drained ds @ [GetNoWait (Some None)]"
    | (yield) c ds s' m' tr' where
        "tr = (ReadClosed False # Get (Some c) # drained ds @ [GetNoWait None]) @
           Yield (concat (c # ds)) # tr'"
        "generator s' m' = (tr', out)" "load s' m' < load s m"
    by (auto dest: generator_load)
  then show ?case
  proof cases
    case closed
    with less.prems(2) show ?thesis by (cases pre) auto
  next
    case blocked
    with less.prems(2) show ?thesis by (cases pre) auto
  next
    case marker
    with less.prems(2) have "Yield b \<in> set [ReadClosed False, Get None]"
      by (metis in_set_conv_decomp)
    then show ?thesis by simp
  next
    case dropped
    with less.prems(2) have
      "Yield b \<in> set (ReadClosed False # Get (Some c) # drained ds @ [GetNoWait (Some None)])"
      by (metis in_set_conv_decomp)
    then show ?thesis by (auto simp: drained_def)
  next
    case yield
    have "\<forall>x\<in>set (ReadClosed False # Get (Some c) # drained ds @ [GetNoWait None]).
        \<not> is_yield x"
      by (auto simp: drained_def)
    from first_occurrence[OF yield(1)[unfolded less.prems(2), symmetric] this y]
    show ?thesis
    proof
      assume "pre = ReadClosed False # Get (Some c) # drained ds @ [GetNoWait None] \<and>
        Yield b = Yield (concat (c # ds)) \<and> post = tr'"
      then have "pre = [ReadClosed False] @ Get (Some c) # drained ds @ [GetNoWait None] \<and>
        b = concat (c # ds)" by simp
      then show ?thesis by blast
    next
      assume "\<exists>pre'. pre = (ReadClosed False # Get (Some c) # drained ds @ [GetNoWait None]) @
          Yield (concat (c # ds)) # pre' \<and> tr' = pre' @ Yield b # post"
      then obtain pre2 where p: "pre = (ReadClosed False # Get (Some c) # drained ds @ [GetNoWait None]) @
          Yield (concat (c # ds)) # pre2" and t: "tr' = pre2 @ Yield b # post" by blast
      from less.hyps[OF yield(3,2) t] obtain c' ds' pre3 where
        "pre2 = pre3 @ Get (Some c') # drained ds' @ [GetNoWait None]" "b = concat (c' # ds')"
        by blast
      with p have "pre = ((ReadClosed False # Get (Some c) # drained ds @ [GetNoWait None]) @
          Yield (concat (c # ds)) # pre3) @ Get (Some c') # drained ds' @ [GetNoWait None] \<and>
          b = concat (c' # ds')" by simp
      then show ?thesis by blast
    qed
  qed
qed

theorem yielded_block_is_batch_witness:
  "generator demo_sched (mic_enter mic_init) =
     ([ReadClosed False, Get (Some [1, 2]), GetNoWait (Some (Some [3])), GetNoWait None] @
        Yield [1, 2, 3] # [ReadClosed False, Get (Some [4]), GetNoWait (Some None)],
      Returned) \<and>
   (\<exists>c ds pre'.
      [ReadClosed False, Get (Some [1, 2]), GetNoWait (Some (Some [3])), GetNoWait None] =
        pre' @ Get (Some c) # drained ds @ [GetNoWait None] \<and>
      [1, 2, 3] = concat (c # ds))"
proof -
  have run: "generator demo_sched (mic_enter mic_init) = (demo_trace, Returned)"
    by (rule demo_run)
  have split: "demo_trace =
      [ReadClosed False, Get (Some [1, 2]), GetNoWait (Some (Some [3])), GetNoWait None] @
        Yield [1, 2, 3] # [ReadClosed False, Get (Some [4]), GetNoWait (Some None)]"
    by (simp add: demo_trace_def)
  from yielded_block_is_batch[OF run split] run split show ?thesis by simp
qed



end
